theory Spec2Isabelle
  imports Main "HOL-Library.Monad_Syntax" "HOL-Library.Signed_Division"
    "HOL-Library.Multiset"
begin

section \<open>Go primitives used by the package\<close>

text \<open>
  Go's \<open>int\<close> and \<open>int64\<close> values are modelled as \<open>int\<close>. The only arithmetic of the
  package is on queue indices, which lie below the length of an allocated slice, so none of
  it reaches the ends of the 64-bit range. A run-time panic (integer division by zero, an
  index out of range, \<open>make\<close> with a negative length) is the value \<open>None\<close>; the
  \<open>error\<close> values built by \<open>errors.New\<close> are the datatype \<open>err\<close>, and a returned
  \<open>nil\<close> error is \<open>None :: err option\<close>.
\<close>

datatype err = QueueFull | QueueEmpty

definition go_rem :: "int \<Rightarrow> int \<Rightarrow> int option" where
  \<comment> \<open>\<open>a % b\<close>: truncated remainder, panics when \<open>b = 0\<close>\<close>
  "go_rem a b = (if b = 0 then None else Some (a smod b))"

definition go_index :: "'a list \<Rightarrow> int \<Rightarrow> 'a option" where
  \<comment> \<open>\<open>xs[i]\<close> as a read\<close>
  "go_index xs i = (if 0 \<le> i \<and> i < int (length xs) then Some (xs ! nat i) else None)"

definition go_assign :: "'a list \<Rightarrow> int \<Rightarrow> 'a \<Rightarrow> 'a list option" where
  \<comment> \<open>\<open>xs[i] = v\<close>\<close>
  "go_assign xs i v =
     (if 0 \<le> i \<and> i < int (length xs) then Some (xs[nat i := v]) else None)"

section \<open>The ring buffer \<open>circleQueueInt64\<close>\<close>

record circleQueueInt64 =
  maxSize :: int
  slice :: "int list"
  head :: int
  tail :: int

definition newCircleQueueInt64 :: "int \<Rightarrow> circleQueueInt64 option" where
  "newCircleQueueInt64 sz =
     (let m = sz + 1
      in if m < 0 then None
         else Some \<lparr>maxSize = m, slice = replicate (nat m) 0, head = 0, tail = 0\<rparr>)"

definition IsFull :: "circleQueueInt64 \<Rightarrow> bool option" where
  "IsFull q = do { r \<leftarrow> go_rem (tail q + 1) (maxSize q); Some (r = head q) }"

definition IsEmpty :: "circleQueueInt64 \<Rightarrow> bool" where
  "IsEmpty q = (tail q = head q)"

definition UsedSize :: "circleQueueInt64 \<Rightarrow> int option" where
  "UsedSize q = go_rem (tail q + maxSize q - head q) (maxSize q)"

definition UnUsedSize :: "circleQueueInt64 \<Rightarrow> int option" where
  "UnUsedSize q = do { u \<leftarrow> UsedSize q; Some (maxSize q - 1 - u) }"

definition Len :: "circleQueueInt64 \<Rightarrow> int" where
  "Len q = maxSize q - 1"

definition Push :: "int \<Rightarrow> circleQueueInt64 \<Rightarrow> (err option \<times> circleQueueInt64) option" where
  "Push val q = do {
     full \<leftarrow> IsFull q;
     if full then Some (Some QueueFull, q)
     else do {
       s \<leftarrow> go_assign (slice q) (tail q) val;
       t \<leftarrow> go_rem (tail q + 1) (maxSize q);
       Some (None, q\<lparr>slice := s, tail := t\<rparr>)
     }
   }"

definition Pop :: "circleQueueInt64 \<Rightarrow> ((int \<times> err option) \<times> circleQueueInt64) option" where
  "Pop q =
     (if IsEmpty q then Some ((0, Some QueueEmpty), q)
      else do {
        val \<leftarrow> go_index (slice q) (head q);
        h \<leftarrow> go_rem (head q + 1) (maxSize q);
        Some ((val, None), q\<lparr>head := h\<rparr>)
      })"

text \<open>
  \<open>DeleteExpired\<close> reads the clock once; the reading \<open>now\<close> is a parameter. The loop
  \<open>for i := 0; i < size; i++\<close> is a recursion on the number of iterations left.
\<close>

fun DeleteExpired_loop ::
  "int \<Rightarrow> nat \<Rightarrow> int \<Rightarrow> circleQueueInt64 \<Rightarrow> circleQueueInt64 option" where
  "DeleteExpired_loop now 0 temphead q = Some q"
| "DeleteExpired_loop now (Suc n) temphead q = do {
     e \<leftarrow> go_index (slice q) temphead;
     if now > e then do {
       (r, q') \<leftarrow> Pop q;
       temphead' \<leftarrow> go_rem (temphead + 1) (maxSize q');
       DeleteExpired_loop now n temphead' q'
     } else Some q
   }"

definition DeleteExpired :: "int \<Rightarrow> circleQueueInt64 \<Rightarrow> circleQueueInt64 option" where
  "DeleteExpired now q = do {
     sz \<leftarrow> UsedSize q;
     if sz = 0 then Some q
     else DeleteExpired_loop now (nat sz) (head q) q
   }"

text \<open>
  Modelled from the spec: \<open>deleteExpiredOnce\<close> calls a method \<open>Size\<close> of the queue that the
  source file does not declare. The spec reclaims the slot "if the buffer becomes empty",
  so \<open>Size\<close> is the number of stored events, \<open>UsedSize\<close>.
\<close>

definition Size :: "circleQueueInt64 \<Rightarrow> int option" where
  "Size q = UsedSize q"

section \<open>The containers the controller is built from\<close>

text \<open>
  \<open>sync.Map\<close> (field \<open>indexes\<close>) is an association list with one pair for each key; the
  values stored are always Go \<open>int\<close>s. \<open>Range\<close> visits the pairs in an order Go leaves
  open: in the model it is the order of the list. The lemmas about one operation hold for
  every order of the list, and the reachability relation \<open>reachable_before_rebuild\<close> lets
  the list be permuted between two operations.
\<close>

definition Load :: "('k \<times> int) list \<Rightarrow> 'k \<Rightarrow> int option" where
  "Load m k = map_of m k"

fun Store :: "'k \<Rightarrow> int \<Rightarrow> ('k \<times> int) list \<Rightarrow> ('k \<times> int) list" where
  "Store k v [] = [(k, v)]"
| "Store k v (p # m) = (if fst p = k then (k, v) # m else p # Store k v m)"

definition Delete :: "'k \<Rightarrow> ('k \<times> int) list \<Rightarrow> ('k \<times> int) list" where
  "Delete k m = filter (\<lambda>p. fst p \<noteq> k) m"

text \<open>
  \<open>hashset.SetInt\<close> (field \<open>notUsedVisitorRecordsIndex\<close>) comes from another package: a set
  of \<open>int\<close>s kept in a Go map. It is a list without repetition; \<open>for index := range Items\<close>
  followed by \<open>break\<close> takes one member, the first of the list.
\<close>

definition SetInt_Add :: "int \<Rightarrow> int list \<Rightarrow> int list" where
  "SetInt_Add v s = (if v \<in> set s then s else s @ [v])"

definition SetInt_Remove :: "int \<Rightarrow> int list \<Rightarrow> int list" where
  "SetInt_Remove v s = filter (\<lambda>x. x \<noteq> v) s"

definition SetInt_Size :: "int list \<Rightarrow> int" where
  "SetInt_Size s = int (length s)"

definition SetInt_Clear :: "int list \<Rightarrow> int list" where
  "SetInt_Clear s = []"

text \<open>
  The slots hold pointers (\<open>[]*circleQueueInt64\<close>): a pointer is an address in \<open>heap\<close>,
  the list of all queues allocated so far, and \<open>visitorRecords\<close> is a list of addresses.
\<close>

definition deref :: "circleQueueInt64 list \<Rightarrow> nat \<Rightarrow> circleQueueInt64 option" where
  "deref h p = (if p < length h then Some (h ! p) else None)"

section \<open>The controller \<open>Visitercontrol\<close>\<close>

record 'k Visitercontrol =
  defaultExpiration :: int
  cleanupInterval :: int
  maxVisitsNum :: int
  indexes :: "('k \<times> int) list"
  maximumNumberOfOnlineUsers :: int
  visitorRecords :: "nat list"
  notUsedVisitorRecordsIndex :: "int list"
  heap :: "circleQueueInt64 list"

datatype panic = ConfigPanic | RuntimePanic

text \<open>
  \<open>fill_records n limit h\<close> is the loop that puts a fresh queue into each of the \<open>n\<close>
  slots of a slice just made (in \<open>new\<close> and in \<open>gc\<close>); \<open>add_range P n s\<close> is the loop
  \<open>for i := range records\<close> (of length \<open>n\<close>) that adds to the set each \<open>i\<close> with \<open>P i\<close>.
\<close>

fun fill_records ::
  "nat \<Rightarrow> int \<Rightarrow> circleQueueInt64 list \<Rightarrow> (nat list \<times> circleQueueInt64 list) option" where
  "fill_records 0 limit h = Some ([], h)"
| "fill_records (Suc n) limit h = do {
     q \<leftarrow> newCircleQueueInt64 limit;
     (ps, h') \<leftarrow> fill_records n limit (h @ [q]);
     Some (length h # ps, h')
   }"

definition add_range :: "(int \<Rightarrow> bool) \<Rightarrow> nat \<Rightarrow> int list \<Rightarrow> int list" where
  "add_range P n s = foldl (\<lambda>s i. if P i then SetInt_Add i s else s) s (map int [0..<n])"

definition new :: "int \<Rightarrow> int \<Rightarrow> int \<Rightarrow> int \<Rightarrow> panic + 'k Visitercontrol" where
  "new defaultExpiration' cleanupInterval' maxVisitsNum' maximumNumberOfOnlineUsers' =
     (if cleanupInterval' > defaultExpiration' then Inl ConfigPanic
      else if maximumNumberOfOnlineUsers' < 0 then Inl RuntimePanic
      else case fill_records (nat maximumNumberOfOnlineUsers') maxVisitsNum' [] of
             None \<Rightarrow> Inl RuntimePanic
           | Some (ps, h) \<Rightarrow>
               Inr \<lparr>defaultExpiration = defaultExpiration',
                    cleanupInterval = cleanupInterval',
                    maxVisitsNum = maxVisitsNum',
                    indexes = [],
                    maximumNumberOfOnlineUsers = maximumNumberOfOnlineUsers',
                    visitorRecords = ps,
                    notUsedVisitorRecordsIndex = add_range (\<lambda>i. True) (length ps) [],
                    heap = h\<rparr>)"

text \<open>
  \<open>add now key\<close>: \<open>now\<close> is the reading of \<open>time.Now()\<close> in nanoseconds, so the stamp
  pushed is \<open>now + defaultExpiration\<close>. The locks are left out: the model runs one
  operation at a time.
\<close>

definition add ::
  "int \<Rightarrow> 'k \<Rightarrow> 'k Visitercontrol \<Rightarrow> (err option \<times> 'k Visitercontrol) option" where
  "add now key st =
     (case Load (indexes st) key of
        Some index \<Rightarrow> do {
          p \<leftarrow> go_index (visitorRecords st) index;
          q \<leftarrow> deref (heap st) p;
          (e, q') \<leftarrow> Push (now + defaultExpiration st) q;
          Some (e, st\<lparr>heap := (heap st)[p := q']\<rparr>)
        }
      | None \<Rightarrow>
          if SetInt_Size (notUsedVisitorRecordsIndex st) > 0 then do {
            let index = hd (notUsedVisitorRecordsIndex st);
            p \<leftarrow> go_index (visitorRecords st) index;
            q \<leftarrow> deref (heap st) p;
            (e, q') \<leftarrow> Push (now + defaultExpiration st) q;
            Some (None,
              st\<lparr>heap := (heap st)[p := q'],
                 notUsedVisitorRecordsIndex := SetInt_Remove index (notUsedVisitorRecordsIndex st),
                 indexes := Store key index (indexes st)\<rparr>)
          } else do {
            queue \<leftarrow> newCircleQueueInt64 (maxVisitsNum st);
            (e, queue') \<leftarrow> Push (now + defaultExpiration st) queue;
            let records = visitorRecords st @ [length (heap st)];
            Some (None,
              st\<lparr>heap := heap st @ [queue'],
                 visitorRecords := records,
                 indexes := Store key (int (length records) - 1) (indexes st)\<rparr>)
          })"

definition AllowVisit ::
  "int \<Rightarrow> 'k \<Rightarrow> 'k Visitercontrol \<Rightarrow> (bool \<times> 'k Visitercontrol) option" where
  "AllowVisit now key st = do { (e, st') \<leftarrow> add now key st; Some (e = None, st') }"

text \<open>
  \<open>deleteExpiredOnce\<close>: \<open>deleteExpiredOnce_visit\<close> is the function passed to \<open>Range\<close>,
  \<open>clock k\<close> the reading of the clock when the queue of key \<open>k\<close> is swept.
\<close>

definition deleteExpiredOnce_visit ::
  "int \<Rightarrow> 'k \<times> int \<Rightarrow> 'k Visitercontrol \<Rightarrow> 'k Visitercontrol option" where
  "deleteExpiredOnce_visit now kv st =
     (let k = fst kv; index = snd kv
      in if index < int (length (visitorRecords st)) \<and> index \<ge> 0 then do {
           p \<leftarrow> go_index (visitorRecords st) index;
           q \<leftarrow> deref (heap st) p;
           q' \<leftarrow> DeleteExpired now q;
           sz \<leftarrow> Size q';
           let st1 = st\<lparr>heap := (heap st)[p := q']\<rparr>;
           if sz = 0
           then Some (st1\<lparr>indexes := Delete k (indexes st1),
                         notUsedVisitorRecordsIndex :=
                           SetInt_Add index (notUsedVisitorRecordsIndex st1)\<rparr>)
           else Some st1
         }
         else Some (st\<lparr>indexes := Delete k (indexes st)\<rparr>))"

fun deleteExpiredOnce_Range ::
  "('k \<Rightarrow> int) \<Rightarrow> ('k \<times> int) list \<Rightarrow> 'k Visitercontrol \<Rightarrow> 'k Visitercontrol option" where
  "deleteExpiredOnce_Range clock [] st = Some st"
| "deleteExpiredOnce_Range clock (kv # kvs) st = do {
     st' \<leftarrow> deleteExpiredOnce_visit (clock (fst kv)) kv st;
     deleteExpiredOnce_Range clock kvs st'
   }"

definition deleteExpiredOnce ::
  "('k \<Rightarrow> int) \<Rightarrow> 'k Visitercontrol \<Rightarrow> 'k Visitercontrol option" where
  "deleteExpiredOnce clock st = deleteExpiredOnce_Range clock (indexes st) st"

definition needGc :: "'k Visitercontrol \<Rightarrow> bool" where
  "needGc st =
     (let curLen = int (length (visitorRecords st));
          unUsedLen = int (length (notUsedVisitorRecordsIndex st));
          usedLen = curLen - unUsedLen
      in if curLen < 2 * maximumNumberOfOnlineUsers st then False
         else if usedLen * 2 < unUsedLen then True
         else False)"

text \<open>
  \<open>gc_Range old kvs (new, indexNew)\<close> is the \<open>Range\<close> inside \<open>gc\<close>: for each pair it copies
  the pointer \<open>old[indexOld]\<close> to \<open>new[indexNew]\<close> and counts \<open>indexNew\<close> up. It stores
  nothing into \<open>indexes\<close>.
\<close>

fun gc_Range ::
  "nat list \<Rightarrow> ('k \<times> int) list \<Rightarrow> nat list \<times> int \<Rightarrow> (nat list \<times> int) option" where
  "gc_Range old [] (visitorRecordsNew, indexNew) = Some (visitorRecordsNew, indexNew)"
| "gc_Range old (kv # kvs) (visitorRecordsNew, indexNew) = do {
     p \<leftarrow> go_index old (snd kv);
     visitorRecordsNew' \<leftarrow> go_assign visitorRecordsNew indexNew p;
     gc_Range old kvs (visitorRecordsNew', indexNew + 1)
   }"

definition gc_newLen :: "'k Visitercontrol \<Rightarrow> int" where
  "gc_newLen st =
     (let curLen = int (length (visitorRecords st));
          unUsedLen = int (length (notUsedVisitorRecordsIndex st));
          usedLen = curLen - unUsedLen
      in if usedLen < maximumNumberOfOnlineUsers st then maximumNumberOfOnlineUsers st
         else usedLen * 2)"

definition gc :: "'k Visitercontrol \<Rightarrow> 'k Visitercontrol option" where
  "gc st =
     (if needGc st then
        (let newLen = gc_newLen st
         in if newLen < 0 then None
            else do {
              (visitorRecordsNew, h) \<leftarrow> fill_records (nat newLen) (maxVisitsNum st) (heap st);
              (visitorRecordsNew', indexNew) \<leftarrow>
                 gc_Range (visitorRecords st) (indexes st) (visitorRecordsNew, 0);
              Some (st\<lparr>heap := h,
                       visitorRecords := visitorRecordsNew',
                       notUsedVisitorRecordsIndex :=
                         add_range (\<lambda>i. i \<ge> indexNew) (length visitorRecordsNew')
                           (SetInt_Clear (notUsedVisitorRecordsIndex st))\<rparr>)
            })
      else Some st)"

section \<open>Specification-level notions\<close>

subsection \<open>Well-formed queues and their contents\<close>

text \<open>
  \<open>queue_ok n q\<close>: the shape every queue built by \<open>newCircleQueueInt64 n\<close> keeps.
  \<open>used q\<close> is the number of stored events in closed form, and \<open>entries q\<close> lists them
  from the oldest (at \<open>head\<close>) to the newest (before \<open>tail\<close>).
\<close>

definition queue_ok :: "int \<Rightarrow> circleQueueInt64 \<Rightarrow> bool" where
  "queue_ok n q \<longleftrightarrow>
     maxSize q = n + 1 \<and> int (length (slice q)) = n + 1 \<and>
     0 \<le> head q \<and> head q < n + 1 \<and> 0 \<le> tail q \<and> tail q < n + 1"

definition used :: "circleQueueInt64 \<Rightarrow> int" where
  "used q = (if head q \<le> tail q then tail q - head q else tail q + maxSize q - head q)"

fun entries_from :: "int list \<Rightarrow> int \<Rightarrow> int \<Rightarrow> nat \<Rightarrow> int list" where
  "entries_from s m h 0 = []"
| "entries_from s m h (Suc k) = s ! nat h # entries_from s m ((h + 1) mod m) k"

definition entries :: "circleQueueInt64 \<Rightarrow> int list" where
  "entries q = entries_from (slice q) (maxSize q) (head q) (nat (used q))"

text \<open>The queues that \<open>Push\<close>, \<open>Pop\<close> and \<open>DeleteExpired\<close> reach from a new one.\<close>

inductive reachableQ :: "int \<Rightarrow> circleQueueInt64 \<Rightarrow> bool" for n :: int where
  rq_new: "newCircleQueueInt64 n = Some q \<Longrightarrow> reachableQ n q"
| rq_Push: "reachableQ n q \<Longrightarrow> Push v q = Some (e, q') \<Longrightarrow> reachableQ n q'"
| rq_Pop: "reachableQ n q \<Longrightarrow> Pop q = Some (r, q') \<Longrightarrow> reachableQ n q'"
| rq_DeleteExpired: "reachableQ n q \<Longrightarrow> DeleteExpired now q = Some q' \<Longrightarrow> reachableQ n q'"

definition queue_two_of_three :: circleQueueInt64 where
  "queue_two_of_three = \<lparr>maxSize = 4, slice = [10, 20, 0, 0], head = 0, tail = 2\<rparr>"

subsection \<open>Runs of the controller\<close>

text \<open>
  A run applies operations one after the other and stops at the first panic. \<open>Sweep now\<close>
  is \<open>deleteExpiredOnce\<close> with every clock reading equal to \<open>now\<close>; \<open>Compact\<close> is \<open>gc\<close>.
\<close>

datatype 'k operation = Visit int 'k | Sweep int | Compact

fun apply_operation :: "'k operation \<Rightarrow> 'k Visitercontrol \<Rightarrow> 'k Visitercontrol option" where
  "apply_operation (Visit now key) st = map_option snd (AllowVisit now key st)"
| "apply_operation (Sweep now) st = deleteExpiredOnce (\<lambda>k. now) st"
| "apply_operation Compact st = gc st"

fun run :: "'k operation list \<Rightarrow> 'k Visitercontrol \<Rightarrow> 'k Visitercontrol option" where
  "run [] st = Some st"
| "run (x # xs) st = Option.bind (apply_operation x st) (run xs)"

subsection \<open>Invariants of the controller\<close>

text \<open>
  \<open>partition_inv\<close>: the slot indices owned by keys and the free ones are disjoint and
  together are exactly the indices of \<open>visitorRecords\<close>; no key and no slot occurs twice
  in \<open>indexes\<close>, no index twice in the free set. \<open>free_empty\<close>: every free index refers
  to a queue with \<open>UsedSize() = 0\<close>. \<open>reachable_before_rebuild\<close>: the states reached
  from \<open>new\<close> by visits, sweeps and calls of \<open>gc\<close> that find nothing to rebuild, in
  any iteration order of the two containers.
\<close>

definition partition_inv :: "'k Visitercontrol \<Rightarrow> bool" where
  "partition_inv st \<longleftrightarrow>
     distinct (map fst (indexes st)) \<and> distinct (map snd (indexes st)) \<and>
     distinct (notUsedVisitorRecordsIndex st) \<and>
     snd ` set (indexes st) \<inter> set (notUsedVisitorRecordsIndex st) = {} \<and>
     snd ` set (indexes st) \<union> set (notUsedVisitorRecordsIndex st)
       = int ` {0 ..< length (visitorRecords st)}"

definition free_empty :: "'k Visitercontrol \<Rightarrow> bool" where
  "free_empty st \<longleftrightarrow>
     (\<forall>i \<in> set (notUsedVisitorRecordsIndex st).
        \<exists>p q. go_index (visitorRecords st) i = Some p \<and> deref (heap st) p = Some q \<and>
              UsedSize q = Some 0)"

inductive reachable_before_rebuild :: "'k Visitercontrol \<Rightarrow> bool" where
  rb_new: "new dE cI mV mU = Inr st \<Longrightarrow> reachable_before_rebuild st"
| rb_visit: "reachable_before_rebuild st \<Longrightarrow> AllowVisit now key st = Some (b, st') \<Longrightarrow>
     reachable_before_rebuild st'"
| rb_sweep: "reachable_before_rebuild st \<Longrightarrow> deleteExpiredOnce clock st = Some st' \<Longrightarrow>
     reachable_before_rebuild st'"
| rb_gc: "reachable_before_rebuild st \<Longrightarrow> \<not> needGc st \<Longrightarrow> gc st = Some st' \<Longrightarrow>
     reachable_before_rebuild st'"
| rb_order: "reachable_before_rebuild st \<Longrightarrow> mset ixs = mset (indexes st) \<Longrightarrow>
     mset free = mset (notUsedVisitorRecordsIndex st) \<Longrightarrow>
     reachable_before_rebuild (st\<lparr>indexes := ixs, notUsedVisitorRecordsIndex := free\<rparr>)"

subsection \<open>Concrete states\<close>

text \<open>
  A controller with window 10, sweep interval 1, limit 2 and expected concurrency 1, as
  \<open>new\<close> returns it (\<open>pool1_start\<close>). Keys 1 to 4 visit at time 0: key 1 takes the
  only free slot, keys 2, 3 and 4 get the appended slots 1, 2 and 3. Key 2 visits again at
  time 5. The sweep at time 11 leaves key 2 alone in slot 1 (\<open>pool1_swept\<close>); \<open>gc\<close>
  then rebuilds the pool (\<open>pool1_compacted\<close>); key 2 visits once more at time 12
  (\<open>pool1_revisited\<close>).
\<close>

definition empty_queue_2 :: circleQueueInt64 where
  "empty_queue_2 = \<lparr>maxSize = 3, slice = [0, 0, 0], head = 0, tail = 0\<rparr>"

definition drained_queue_2 :: circleQueueInt64 where
  "drained_queue_2 = \<lparr>maxSize = 3, slice = [10, 0, 0], head = 1, tail = 1\<rparr>"

definition revisited_queue_2 :: circleQueueInt64 where
  "revisited_queue_2 = \<lparr>maxSize = 3, slice = [10, 15, 0], head = 1, tail = 2\<rparr>"

definition pool1_start :: "nat Visitercontrol" where
  "pool1_start =
     \<lparr>defaultExpiration = 10, cleanupInterval = 1, maxVisitsNum = 2, indexes = [],
      maximumNumberOfOnlineUsers = 1, visitorRecords = [0],
      notUsedVisitorRecordsIndex = [0], heap = [empty_queue_2]\<rparr>"

definition pool1_visits :: "nat operation list" where
  "pool1_visits = [Visit 0 1, Visit 0 2, Visit 0 3, Visit 0 4, Visit 5 2]"

definition pool1_swept :: "nat Visitercontrol" where
  "pool1_swept =
     \<lparr>defaultExpiration = 10, cleanupInterval = 1, maxVisitsNum = 2,
      indexes = [(2, 1)], maximumNumberOfOnlineUsers = 1,
      visitorRecords = [0, 1, 2, 3], notUsedVisitorRecordsIndex = [0, 2, 3],
      heap = [drained_queue_2, revisited_queue_2, drained_queue_2, drained_queue_2]\<rparr>"

definition pool1_compacted :: "nat Visitercontrol" where
  "pool1_compacted =
     \<lparr>defaultExpiration = 10, cleanupInterval = 1, maxVisitsNum = 2,
      indexes = [(2, 1)], maximumNumberOfOnlineUsers = 1,
      visitorRecords = [1, 5], notUsedVisitorRecordsIndex = [1],
      heap = [drained_queue_2, revisited_queue_2, drained_queue_2, drained_queue_2,
              empty_queue_2, empty_queue_2]\<rparr>"

definition pool1_revisited :: "nat Visitercontrol" where
  "pool1_revisited =
     \<lparr>defaultExpiration = 10, cleanupInterval = 1, maxVisitsNum = 2,
      indexes = [(2, 1)], maximumNumberOfOnlineUsers = 1,
      visitorRecords = [1, 5], notUsedVisitorRecordsIndex = [1],
      heap = [drained_queue_2, revisited_queue_2, drained_queue_2, drained_queue_2,
              empty_queue_2, \<lparr>maxSize = 3, slice = [22, 0, 0], head = 0, tail = 1\<rparr>]\<rparr>"

text \<open>
  The same with expected concurrency 3 (\<open>pool3_start\<close>): keys 1 to 7 visit at time 0, so
  that keys 4 to 7 get the appended slots 3 to 6; keys 6 and 7 visit again at time 5. The
  sweep at time 11 leaves keys 6 and 7 in slots 5 and 6 (\<open>pool3_swept\<close>), and \<open>gc\<close>
  rebuilds the pool (\<open>pool3_compacted\<close>).
\<close>

definition pool3_start :: "nat Visitercontrol" where
  "pool3_start =
     \<lparr>defaultExpiration = 10, cleanupInterval = 1, maxVisitsNum = 2, indexes = [],
      maximumNumberOfOnlineUsers = 3, visitorRecords = [0, 1, 2],
      notUsedVisitorRecordsIndex = [0, 1, 2],
      heap = [empty_queue_2, empty_queue_2, empty_queue_2]\<rparr>"

definition pool3_visits :: "nat operation list" where
  "pool3_visits =
     [Visit 0 1, Visit 0 2, Visit 0 3, Visit 0 4, Visit 0 5, Visit 0 6, Visit 0 7,
      Visit 5 6, Visit 5 7]"

definition pool3_heap :: "circleQueueInt64 list" where
  "pool3_heap =
     [drained_queue_2, drained_queue_2, drained_queue_2, drained_queue_2, drained_queue_2,
      revisited_queue_2, revisited_queue_2]"

definition pool3_swept :: "nat Visitercontrol" where
  "pool3_swept =
     \<lparr>defaultExpiration = 10, cleanupInterval = 1, maxVisitsNum = 2,
      indexes = [(6, 5), (7, 6)], maximumNumberOfOnlineUsers = 3,
      visitorRecords = [0, 1, 2, 3, 4, 5, 6],
      notUsedVisitorRecordsIndex = [0, 1, 2, 3, 4],
      heap = pool3_heap\<rparr>"

definition pool3_compacted :: "nat Visitercontrol" where
  "pool3_compacted =
     \<lparr>defaultExpiration = 10, cleanupInterval = 1, maxVisitsNum = 2,
      indexes = [(6, 5), (7, 6)], maximumNumberOfOnlineUsers = 3,
      visitorRecords = [5, 6, 9], notUsedVisitorRecordsIndex = [2],
      heap = pool3_heap @ [empty_queue_2, empty_queue_2, empty_queue_2]\<rparr>"

text \<open>
  A controller with limit 0 (window 30, sweep interval 1, expected concurrency 1), and a
  controller with limit 1 (window 10, expected concurrency 1) whose only key, 7, has
  visited once at time 0.
\<close>

definition zero_limit_queue :: circleQueueInt64 where
  "zero_limit_queue = \<lparr>maxSize = 1, slice = [0], head = 0, tail = 0\<rparr>"

definition zero_limit_start :: "nat Visitercontrol" where
  "zero_limit_start =
     \<lparr>defaultExpiration = 30, cleanupInterval = 1, maxVisitsNum = 0, indexes = [],
      maximumNumberOfOnlineUsers = 1, visitorRecords = [0],
      notUsedVisitorRecordsIndex = [0], heap = [zero_limit_queue]\<rparr>"

definition one_visit_state :: "nat Visitercontrol" where
  "one_visit_state =
     \<lparr>defaultExpiration = 10, cleanupInterval = 1, maxVisitsNum = 1, indexes = [(7, 0)],
      maximumNumberOfOnlineUsers = 1, visitorRecords = [0],
      notUsedVisitorRecordsIndex = [],
      heap = [\<lparr>maxSize = 2, slice = [10, 0], head = 0, tail = 1\<rparr>]\<rparr>"

section \<open>Lemmas about the ring buffer\<close>

lemma go_rem_nonneg: "0 \<le> a \<Longrightarrow> 0 < b \<Longrightarrow> go_rem a b = Some (a mod b)"
  by (simp add: go_rem_def signed_modulo_int_def sgn_if abs_if)

lemma go_rem_succ: "0 \<le> a \<Longrightarrow> a < m \<Longrightarrow> go_rem (a + 1) m = Some (if a + 1 = m then 0 else a + 1)"
  by (simp add: go_rem_nonneg)

lemma queue_ok_new: "0 \<le> n \<Longrightarrow> newCircleQueueInt64 n = Some q \<Longrightarrow> queue_ok n q"
  by (auto simp: newCircleQueueInt64_def queue_ok_def Let_def)

lemma new_defined: "0 \<le> n \<Longrightarrow> \<exists>q. newCircleQueueInt64 n = Some q \<and> used q = 0 \<and> queue_ok n q"
  by (auto simp: newCircleQueueInt64_def queue_ok_def Let_def used_def)

lemma used_bounds: "queue_ok n q \<Longrightarrow> 0 \<le> used q \<and> used q \<le> n"
  by (auto simp: queue_ok_def used_def)


lemma used_mod:
  fixes h t m :: int
  assumes "0 \<le> h" "h < m" "0 \<le> t" "t < m"
  shows "(t + m - h) mod m = (if h \<le> t then t - h else t + m - h)"
proof (cases "h \<le> t")
  case True
  have "(t + m - h) mod m = ((t - h) + m) mod m" by (simp add: algebra_simps)
  also have "\<dots> = (t - h) mod m" by simp
  also have "\<dots> = t - h" using True assms by simp
  finally show ?thesis using True by simp
next
  case False
  then show ?thesis using assms by simp
qed

lemma UsedSize_used: "queue_ok n q \<Longrightarrow> UsedSize q = Some (used q)"
proof -
  assume ok: "queue_ok n q"
  then have "0 \<le> tail q + maxSize q - head q" "0 < maxSize q"
    by (simp_all add: queue_ok_def)
  then have "UsedSize q = Some ((tail q + maxSize q - head q) mod maxSize q)"
    by (simp add: UsedSize_def go_rem_nonneg)
  also have "(tail q + maxSize q - head q) mod maxSize q = used q"
    unfolding used_def using ok by (intro used_mod) (simp_all add: queue_ok_def)
  finally show ?thesis .
qed

lemma IsFull_used: "queue_ok n q \<Longrightarrow> IsFull q = Some (used q = n)"
proof -
  assume ok: "queue_ok n q"
  then have "go_rem (tail q + 1) (maxSize q) = Some (if tail q + 1 = maxSize q then 0 else tail q + 1)"
    by (intro go_rem_succ) (simp_all add: queue_ok_def)
  then show ?thesis using ok
    by (simp add: IsFull_def queue_ok_def used_def) linarith
qed

lemma IsEmpty_used: "queue_ok n q \<Longrightarrow> IsEmpty q \<longleftrightarrow> used q = 0"
  unfolding IsEmpty_def queue_ok_def used_def by auto


lemma Push_full: "queue_ok n q \<Longrightarrow> used q = n \<Longrightarrow> Push v q = Some (Some QueueFull, q)"
  by (simp add: Push_def IsFull_used)

lemma Push_room:
  assumes ok: "queue_ok n q" and room: "used q \<noteq> n"
  shows "\<exists>q'. Push v q = Some (None, q') \<and> queue_ok n q' \<and> used q' = used q + 1 \<and>
           head q' = head q"
proof -
  let ?t = "if tail q + 1 = maxSize q then 0 else tail q + 1"
  let ?q = "q\<lparr>slice := (slice q)[nat (tail q) := v], tail := ?t\<rparr>"
  have r: "go_rem (tail q + 1) (maxSize q) = Some ?t"
    using ok by (intro go_rem_succ) (simp_all add: queue_ok_def)
  have a: "go_assign (slice q) (tail q) v = Some ((slice q)[nat (tail q) := v])"
    using ok by (simp add: go_assign_def queue_ok_def)
  have "Push v q = Some (None, ?q)"
    using ok room r a by (simp add: Push_def IsFull_used)
  moreover have "queue_ok n ?q"
    using ok by (simp add: queue_ok_def)
  moreover have "used ?q = used q + 1"
    using ok room by (auto simp: queue_ok_def used_def split: if_splits)
  ultimately show ?thesis by simp
qed

lemma Pop_empty: "queue_ok n q \<Longrightarrow> used q = 0 \<Longrightarrow> Pop q = Some ((0, Some QueueEmpty), q)"
  by (simp add: Pop_def IsEmpty_used)

lemma Pop_nonempty:
  assumes ok: "queue_ok n q" and ne: "used q \<noteq> 0"
  shows "\<exists>q'. Pop q = Some ((slice q ! nat (head q), None), q') \<and> queue_ok n q' \<and>
           used q' = used q - 1 \<and> slice q' = slice q \<and> tail q' = tail q \<and>
           go_rem (head q + 1) (maxSize q) = Some (head q')"
proof -
  let ?h = "if head q + 1 = maxSize q then 0 else head q + 1"
  let ?q = "q\<lparr>head := ?h\<rparr>"
  have r: "go_rem (head q + 1) (maxSize q) = Some ?h"
    using ok by (intro go_rem_succ) (simp_all add: queue_ok_def)
  have a: "go_index (slice q) (head q) = Some (slice q ! nat (head q))"
    using ok by (simp add: go_index_def queue_ok_def)
  have "Pop q = Some ((slice q ! nat (head q), None), ?q)"
    using ok ne r a by (simp add: Pop_def IsEmpty_used)
  moreover have "queue_ok n ?q"
    using ok by (simp add: queue_ok_def)
  moreover have "used ?q = used q - 1"
    using ok ne by (auto simp: queue_ok_def used_def split: if_splits)
  ultimately show ?thesis using r by simp
qed

lemma length_entries_from: "length (entries_from s m h k) = k"
  by (induction k arbitrary: h) simp_all

lemma length_entries: "queue_ok n q \<Longrightarrow> int (length (entries q)) = used q"
  using used_bounds [of n q] by (simp add: entries_def length_entries_from)

lemma entries_Pop:
  assumes ok: "queue_ok n q" and ne: "used q \<noteq> 0"
  shows "\<exists>q'. Pop q = Some ((slice q ! nat (head q), None), q') \<and> queue_ok n q' \<and>
           used q' = used q - 1 \<and> slice q' = slice q \<and> tail q' = tail q \<and>
           go_rem (head q + 1) (maxSize q) = Some (head q') \<and>
           entries q = slice q ! nat (head q) # entries q'"
proof -
  from Pop_nonempty [OF ok ne] obtain q' where
    p: "Pop q = Some ((slice q ! nat (head q), None), q')" and ok': "queue_ok n q'" and
    u: "used q' = used q - 1" and s: "slice q' = slice q" and t: "tail q' = tail q" and
    r: "go_rem (head q + 1) (maxSize q) = Some (head q')"
    by blast
  have "go_rem (head q + 1) (maxSize q) = Some ((head q + 1) mod maxSize q)"
    using ok by (intro go_rem_nonneg) (simp_all add: queue_ok_def)
  with r have h: "head q' = (head q + 1) mod maxSize q" by simp
  have m: "maxSize q' = maxSize q" using ok ok' by (simp add: queue_ok_def)
  from used_bounds [OF ok] ne obtain k where k: "nat (used q) = Suc k"
    by (cases "nat (used q)") auto
  then have "nat (used q') = k" using u by simp
  then have "entries q = slice q ! nat (head q) # entries q'"
    using k h m s by (simp add: entries_def)
  with p ok' u s t r show ?thesis by blast
qed

lemma DeleteExpired_loop_entries:
  "queue_ok n q \<Longrightarrow> nat (used q) = k \<Longrightarrow>
   \<exists>q'. DeleteExpired_loop now k (head q) q = Some q' \<and> queue_ok n q' \<and>
        slice q' = slice q \<and> tail q' = tail q \<and>
        entries q' = dropWhile (\<lambda>e. e < now) (entries q)"
proof (induction k arbitrary: q)
  case 0
  then show ?case by (simp add: entries_def)
next
  case (Suc k)
  then have ne: "used q \<noteq> 0" by auto
  from entries_Pop [OF Suc.prems(1) ne] obtain q1 where
    p: "Pop q = Some ((slice q ! nat (head q), None), q1)" and ok1: "queue_ok n q1" and
    u: "used q1 = used q - 1" and s: "slice q1 = slice q" and t: "tail q1 = tail q" and
    r: "go_rem (head q + 1) (maxSize q) = Some (head q1)" and
    e: "entries q = slice q ! nat (head q) # entries q1"
    by blast
  have m: "maxSize q1 = maxSize q" using Suc.prems(1) ok1 by (simp add: queue_ok_def)
  have i: "go_index (slice q) (head q) = Some (slice q ! nat (head q))"
    using Suc.prems(1) by (simp add: go_index_def queue_ok_def)
  show ?case
  proof (cases "now > slice q ! nat (head q)")
    case True
    have "nat (used q1) = k" using u Suc.prems(2) by simp
    from Suc.IH [OF ok1 this] obtain q' where
      l: "DeleteExpired_loop now k (head q1) q1 = Some q'" and ok': "queue_ok n q'" and
      s': "slice q' = slice q1" and t': "tail q' = tail q1" and
      e': "entries q' = dropWhile (\<lambda>e. e < now) (entries q1)"
      by blast
    have "DeleteExpired_loop now (Suc k) (head q) q = Some q'"
      using True i p r m l by simp
    then show ?thesis using ok' s' t' e' s t e True by simp
  next
    case False
    then have "DeleteExpired_loop now (Suc k) (head q) q = Some q"
      using i by simp
    then show ?thesis using False e Suc.prems(1) by simp
  qed
qed

lemma DeleteExpired_entries:
  assumes ok: "queue_ok n q"
  shows "\<exists>q'. DeleteExpired now q = Some q' \<and> queue_ok n q' \<and>
           slice q' = slice q \<and> tail q' = tail q \<and>
           entries q' = dropWhile (\<lambda>e. e < now) (entries q)"
proof (cases "used q = 0")
  case True
  then show ?thesis using ok by (simp add: DeleteExpired_def UsedSize_used entries_def)
next
  case False
  from DeleteExpired_loop_entries [OF ok refl, of now] show ?thesis
    using False ok by (simp add: DeleteExpired_def UsedSize_used)
qed


lemma succ_mod:
  fixes h m :: int
  shows "0 \<le> h \<Longrightarrow> h < m \<Longrightarrow> (h + 1) mod m = (if h + 1 = m then 0 else h + 1)"
  by simp

lemma entries_from_snoc:
  assumes "0 \<le> h" "h < m" "0 \<le> t" "t < m"
    "(if h \<le> t then t - h else t + m - h) = int k" "int (length s) = m"
  shows "entries_from (s[nat t := v]) m h (Suc k) = entries_from s m h k @ [v]"
  using assms
proof (induction k arbitrary: h)
  case 0
  then have "t = h" by (simp split: if_splits)
  then show ?case using 0 by simp
next
  case (Suc k)
  let ?h = "(h + 1) mod m"
  have h': "?h = (if h + 1 = m then 0 else h + 1)"
    using Suc.prems by (intro succ_mod) simp_all
  have ne: "nat h \<noteq> nat t" using Suc.prems by (auto split: if_splits)
  have d: "(if ?h \<le> t then t - ?h else t + m - ?h) = int k"
    using Suc.prems unfolding h' by (auto split: if_splits)
  have b: "0 \<le> ?h" "?h < m" using Suc.prems unfolding h' by auto
  have "entries_from (s[nat t := v]) m ?h (Suc k) = entries_from s m ?h k @ [v]"
    using Suc.IH [OF b Suc.prems(3,4) d Suc.prems(6)] .
  then show ?case using ne by simp
qed

lemma entries_Push:
  assumes ok: "queue_ok n q" and room: "used q \<noteq> n"
  shows "\<exists>q'. Push v q = Some (None, q') \<and> queue_ok n q' \<and> used q' = used q + 1 \<and>
           entries q' = entries q @ [v]"
proof -
  let ?t = "if tail q + 1 = maxSize q then 0 else tail q + 1"
  let ?q = "q\<lparr>slice := (slice q)[nat (tail q) := v], tail := ?t\<rparr>"
  have r: "go_rem (tail q + 1) (maxSize q) = Some ?t"
    using ok by (intro go_rem_succ) (simp_all add: queue_ok_def)
  have a: "go_assign (slice q) (tail q) v = Some ((slice q)[nat (tail q) := v])"
    using ok by (simp add: go_assign_def queue_ok_def)
  have p: "Push v q = Some (None, ?q)"
    using ok room r a by (simp add: Push_def IsFull_used)
  from Push_room [OF ok room, of v] p have ok': "queue_ok n ?q" and u: "used ?q = used q + 1"
    by auto
  have k: "used q = int (nat (used q))" using used_bounds [OF ok] by simp
  have "entries_from ((slice q)[nat (tail q) := v]) (maxSize q) (head q) (Suc (nat (used q)))
        = entries_from (slice q) (maxSize q) (head q) (nat (used q)) @ [v]"
    using ok k by (intro entries_from_snoc) (simp_all add: queue_ok_def used_def)
  moreover have "nat (used ?q) = Suc (nat (used q))"
    unfolding u using used_bounds [OF ok] by (simp add: nat_add_distrib)
  ultimately have "entries ?q = entries q @ [v]"
    by (simp add: entries_def)
  with p ok' u show ?thesis by blast
qed

lemma reachableQ_ok:
  assumes n: "0 \<le> n" and r: "reachableQ n q"
  shows "queue_ok n q"
  using r
proof (induction rule: reachableQ.induct)
  case (rq_new q)
  then show ?case using n by (rule queue_ok_new [rotated])
next
  case (rq_Push q v e q')
  show ?case
  proof (cases "used q = n")
    case True
    with Push_full [OF rq_Push.IH True, of v] rq_Push show ?thesis by simp
  next
    case False
    with Push_room [OF rq_Push.IH False, of v] rq_Push show ?thesis by auto
  qed
next
  case (rq_Pop q r q')
  show ?case
  proof (cases "used q = 0")
    case True
    with Pop_empty [OF rq_Pop.IH True] rq_Pop show ?thesis by simp
  next
    case False
    with Pop_nonempty [OF rq_Pop.IH False] rq_Pop show ?thesis by auto
  qed
next
  case (rq_DeleteExpired q now q')
  with DeleteExpired_entries [OF rq_DeleteExpired.IH, of now] show ?case by auto
qed


lemma Push_fails_iff_full:
  assumes "0 \<le> n" and "reachableQ n q"
  shows "(\<exists>q'. Push v q = Some (Some QueueFull, q')) \<longleftrightarrow> UsedSize q = Some n"
proof -
  have ok: "queue_ok n q" using assms by (rule reachableQ_ok)
  show ?thesis
  proof (cases "used q = n")
    case True
    then show ?thesis using Push_full [OF ok True, of v] UsedSize_used [OF ok] by simp
  next
    case False
    then show ?thesis using Push_room [OF ok False, of v] UsedSize_used [OF ok] by auto
  qed
qed

lemma Push_appends_until_full:
  assumes "0 \<le> n" and "reachableQ n q"
  shows "if int (length (entries q)) = n then Push v q = Some (Some QueueFull, q)
         else \<exists>q'. Push v q = Some (None, q') \<and> entries q' = entries q @ [v]"
proof -
  have ok: "queue_ok n q" using assms by (rule reachableQ_ok)
  show ?thesis
  proof (cases "used q = n")
    case True
    then show ?thesis using Push_full [OF ok True, of v] length_entries [OF ok] by simp
  next
    case False
    then show ?thesis using entries_Push [OF ok False, of v] length_entries [OF ok] by auto
  qed
qed

lemma entries_new: "newCircleQueueInt64 n = Some q \<Longrightarrow> entries q = []"
  by (auto simp: newCircleQueueInt64_def Let_def entries_def used_def split: if_splits)

lemma reachableQ_two_of_three: "reachableQ 3 queue_two_of_three"
proof -
  have "reachableQ 3 \<lparr>maxSize = 4, slice = [0, 0, 0, 0], head = 0, tail = 0\<rparr>"
    by (rule rq_new) (simp add: newCircleQueueInt64_def eval_nat_numeral)
  then have "reachableQ 3 \<lparr>maxSize = 4, slice = [10, 0, 0, 0], head = 0, tail = 1\<rparr>"
    by (rule rq_Push [where v = 10 and e = None])
       (simp add: Push_def IsFull_def go_rem_def go_assign_def signed_modulo_int_def)
  then show ?thesis unfolding queue_two_of_three_def
    by (rule rq_Push [where v = 20 and e = None])
       (simp add: Push_def IsFull_def go_rem_def go_assign_def signed_modulo_int_def)
qed

section \<open>Lemmas about the controller\<close>

lemma Push_error_unchanged: "Push v q = Some (Some e, q') \<Longrightarrow> q' = q \<and> e = QueueFull"
  by (auto simp: Push_def split: if_splits Option.bind_splits)

lemma deref_update_same: "deref h p = Some q \<Longrightarrow> h[p := q] = h"
  by (auto simp: deref_def split: if_splits)

lemma fill_records_length: "fill_records n limit h = Some (ps, h') \<Longrightarrow> length ps = n"
  by (induction n arbitrary: h ps h') (auto split: Option.bind_splits)

lemma gc_Range_length:
  "gc_Range old kvs (recs, i) = Some (recs', i') \<Longrightarrow> length recs' = length recs"
proof (induction kvs arbitrary: recs i)
  case Nil
  then show ?case by simp
next
  case (Cons kv kvs)
  then show ?case
    by (auto simp: go_assign_def split: Option.bind_splits if_splits)
qed

lemma newCircleQueueInt64_None: "newCircleQueueInt64 limit = None \<longleftrightarrow> limit < - 1"
  by (auto simp: newCircleQueueInt64_def Let_def)

lemma fill_records_None: "fill_records n limit h = None \<longleftrightarrow> 0 < n \<and> limit < - 1"
proof (induction n arbitrary: h)
  case 0
  then show ?case by simp
next
  case (Suc n)
  show ?case
  proof (cases "newCircleQueueInt64 limit")
    case None
    then show ?thesis using newCircleQueueInt64_None [of limit] by simp
  next
    case (Some q)
    then have l: "\<not> limit < - 1" using newCircleQueueInt64_None [of limit] by simp
    then have "fill_records n limit (h @ [q]) \<noteq> None" using Suc.IH by simp
    then show ?thesis using Some l by (auto split: Option.bind_splits)
  qed
qed

subsection \<open>What \<open>gc\<close> does when it rebuilds\<close>

lemma fill_records_Some:
  "fill_records n limit h = Some (ps, h') \<Longrightarrow>
   \<exists>q0. (n = 0 \<or> newCircleQueueInt64 limit = Some q0) \<and>
        ps = [length h ..< length h + n] \<and> h' = h @ replicate n q0"
proof (induction n arbitrary: h ps h')
  case 0
  then show ?case by simp
next
  case (Suc n)
  from Suc.prems obtain q ps' where
    q: "newCircleQueueInt64 limit = Some q" and
    f: "fill_records n limit (h @ [q]) = Some (ps', h')" and
    ps: "ps = length h # ps'"
    by (auto split: Option.bind_splits)
  from Suc.IH [OF f] obtain q0 where
    c: "n = 0 \<or> newCircleQueueInt64 limit = Some q0" and
    ps': "ps' = [length (h @ [q]) ..< length (h @ [q]) + n]" and
    h': "h' = (h @ [q]) @ replicate n q0"
    by blast
  have "h' = h @ replicate (Suc n) q"
    using c q h' by (auto simp: replicate_app_Cons_same)
  moreover have "ps = [length h ..< length h + Suc n]"
    using ps ps' by (simp add: upt_conv_Cons)
  ultimately show ?case using q by blast
qed

lemma add_range_Nil: "add_range P n [] = filter P (map int [0..<n])"
proof (induction n)
  case 0
  then show ?case by (simp add: add_range_def)
next
  case (Suc n)
  have "add_range P (Suc n) [] =
          (if P (int n) then SetInt_Add (int n) (add_range P n []) else add_range P n [])"
    by (simp add: add_range_def)
  also have "\<dots> = filter P (map int [0..<Suc n])"
    using Suc.IH by (auto simp: SetInt_Add_def)
  finally show ?case .
qed

lemma filter_ge_upt: "filter (\<lambda>i. i \<ge> int k) (map int [0..<n]) = map int [k..<n]"
proof (induction n)
  case 0
  then show ?case by simp
next
  case (Suc n)
  then show ?case by (cases "k \<le> n") auto
qed

lemma gc_Range_Some:
  "gc_Range old kvs (recs, i) = Some (recs', i') \<Longrightarrow> 0 \<le> i \<Longrightarrow>
   i' = i + int (length kvs) \<and> length recs' = length recs \<and>
   (kvs \<noteq> [] \<longrightarrow> i' \<le> int (length recs)) \<and>
   (\<forall>j. j < nat i \<or> nat i' \<le> j \<longrightarrow> recs' ! j = recs ! j) \<and>
   (\<forall>j < length kvs. go_index old (snd (kvs ! j)) = Some (recs' ! (nat i + j)))"
proof (induction kvs arbitrary: recs i)
  case Nil
  then show ?case by simp
next
  case (Cons kv kvs)
  from Cons.prems obtain p where
    p: "go_index old (snd kv) = Some p" and
    r: "i < int (length recs)" and
    g: "gc_Range old kvs (recs[nat i := p], i + 1) = Some (recs', i')"
    by (auto simp: go_assign_def split: Option.bind_splits if_splits)
  from Cons.IH [OF g] Cons.prems(2) have
    a: "i' = i + 1 + int (length kvs)" and
    b: "length recs' = length recs" and
    c: "kvs \<noteq> [] \<longrightarrow> i' \<le> int (length recs)" and
    d: "\<forall>j. j < nat (i + 1) \<or> nat i' \<le> j \<longrightarrow> recs' ! j = (recs[nat i := p]) ! j" and
    e: "\<forall>j < length kvs. go_index old (snd (kvs ! j)) = Some (recs' ! (nat (i + 1) + j))"
    by auto
  have i1: "nat (i + 1) = Suc (nat i)" using Cons.prems(2) by simp
  have "recs' ! nat i = p"
    using d r Cons.prems(2) by (simp add: i1)
  then have f: "\<forall>j < length (kv # kvs). go_index old (snd ((kv # kvs) ! j)) = Some (recs' ! (nat i + j))"
    using p e by (auto simp: nth_Cons i1 split: nat.splits)
  have h: "\<forall>j. j < nat i \<or> nat i' \<le> j \<longrightarrow> recs' ! j = recs ! j"
    using d a Cons.prems(2) by (auto simp: i1)
  have "i' \<le> int (length recs)" using a c r by (cases kvs) auto
  with a b f h show ?case by simp
qed


lemma gc_not_needed: "\<not> needGc st \<Longrightarrow> gc st = Some st"
  by (simp add: gc_def)

lemma gc_never_stores_indexes: "gc st = Some st' \<Longrightarrow> indexes st' = indexes st"
  by (auto simp: gc_def Let_def split: if_splits Option.bind_splits)

lemma gc_rebuild:
  assumes "needGc st" and "gc st = Some st'"
  shows "\<exists>q0. length (indexes st) \<le> length (visitorRecords st') \<and>
     (\<forall>j < length (indexes st).
        go_index (visitorRecords st) (snd (indexes st ! j)) = Some (visitorRecords st' ! j)) \<and>
     (\<forall>j. length (indexes st) \<le> j \<and> j < length (visitorRecords st') \<longrightarrow>
        newCircleQueueInt64 (maxVisitsNum st) = Some q0 \<and>
        length (heap st) \<le> visitorRecords st' ! j \<and>
        deref (heap st') (visitorRecords st' ! j) = Some q0) \<and>
     notUsedVisitorRecordsIndex st' =
        map int [length (indexes st) ..< length (visitorRecords st')] \<and>
     take (length (heap st)) (heap st') = heap st"
proof -
  let ?n = "nat (gc_newLen st)"
  from assms obtain recs h recs' i where
    nn: "0 \<le> gc_newLen st" and
    f: "fill_records ?n (maxVisitsNum st) (heap st) = Some (recs, h)" and
    r: "gc_Range (visitorRecords st) (indexes st) (recs, 0) = Some (recs', i)" and
    s: "st' = st\<lparr>heap := h, visitorRecords := recs',
            notUsedVisitorRecordsIndex :=
              add_range (\<lambda>j. j \<ge> i) (length recs')
                (SetInt_Clear (notUsedVisitorRecordsIndex st))\<rparr>"
    by (auto simp: gc_def Let_def split: if_splits Option.bind_splits)
  from fill_records_Some [OF f] obtain q0 where
    q0: "?n = 0 \<or> newCircleQueueInt64 (maxVisitsNum st) = Some q0" and
    recs: "recs = [length (heap st) ..< length (heap st) + ?n]" and
    h: "h = heap st @ replicate ?n q0"
    by blast
  from gc_Range_Some [OF r] have
    i: "i = int (length (indexes st))" and
    l: "length recs' = length recs" and
    b: "indexes st \<noteq> [] \<longrightarrow> i \<le> int (length recs)" and
    keep: "\<forall>j. nat i \<le> j \<longrightarrow> recs' ! j = recs ! j" and
    copy: "\<forall>j < length (indexes st).
             go_index (visitorRecords st) (snd (indexes st ! j)) = Some (recs' ! j)"
    by auto
  have len: "length recs' = ?n" using l recs by simp
  have le: "length (indexes st) \<le> length recs'"
    using b i l by (cases "indexes st") auto
  have fresh: "newCircleQueueInt64 (maxVisitsNum st) = Some q0 \<and>
               length (heap st) \<le> recs' ! j \<and> deref h (recs' ! j) = Some q0"
    if "length (indexes st) \<le> j" "j < length recs'" for j
  proof -
    have "recs' ! j = length (heap st) + j"
      using that keep i recs len by simp
    moreover have "?n \<noteq> 0" using that len by auto
    ultimately show ?thesis using q0 h that len
      by (simp add: deref_def nth_append)
  qed
  have "add_range (\<lambda>j. j \<ge> i) (length recs') (SetInt_Clear (notUsedVisitorRecordsIndex st))
          = map int [length (indexes st) ..< length recs']"
    by (simp add: SetInt_Clear_def add_range_Nil i filter_ge_upt)
  then show ?thesis using s le copy fresh h by auto
qed

subsection \<open>The partition of the slot indices holds until the first rebuild\<close>

lemma Store_new: "map_of m k = None \<Longrightarrow> Store k v m = m @ [(k, v)]"
  by (induction m) (auto split: if_splits)

lemma partition_inv_new:
  assumes "new dE cI mV mU = Inr (st :: 'k Visitercontrol)"
  shows "partition_inv st"
proof -
  from assms obtain ps h where
    "fill_records (nat mU) mV [] = Some (ps, h)" and
    "indexes st = []" "visitorRecords st = ps"
    "notUsedVisitorRecordsIndex st = add_range (\<lambda>i. True) (length ps) []"
    by (auto simp: new_def split: if_splits option.splits)
  then show ?thesis
    by (simp add: partition_inv_def add_range_Nil distinct_map)
qed

lemma partition_inv_add:
  assumes inv: "partition_inv st" and a: "add now key st = Some (e, st')"
  shows "partition_inv st'"
proof (cases "Load (indexes st) key")
  case (Some index)
  with a have "indexes st' = indexes st" "visitorRecords st' = visitorRecords st"
    "notUsedVisitorRecordsIndex st' = notUsedVisitorRecordsIndex st"
    by (auto simp: add_def split: Option.bind_splits)
  with inv show ?thesis by (simp add: partition_inv_def)
next
  case None
  then have fresh: "key \<notin> fst ` set (indexes st)"
    by (simp add: Load_def map_of_eq_None_iff)
  have st: "Store key v (indexes st) = indexes st @ [(key, v)]" for v
    using None by (simp add: Load_def Store_new)
  show ?thesis
  proof (cases "notUsedVisitorRecordsIndex st")
    case Nil
    with a None have
      "indexes st' = indexes st @ [(key, int (length (visitorRecords st)))]"
      "length (visitorRecords st') = Suc (length (visitorRecords st))"
      "notUsedVisitorRecordsIndex st' = []"
      by (auto simp: add_def st SetInt_Size_def Let_def split: Option.bind_splits)
    moreover have "snd ` set (indexes st) = int ` {0 ..< length (visitorRecords st)}"
      using inv Nil by (simp add: partition_inv_def)
    ultimately show ?thesis using inv fresh Nil
      by (auto simp: partition_inv_def atLeast0_lessThan_Suc)
  next
    case (Cons index free)
    with a None have
      i: "indexes st' = indexes st @ [(key, index)]" and
      r: "visitorRecords st' = visitorRecords st" and
      f: "notUsedVisitorRecordsIndex st' = filter (\<lambda>x. x \<noteq> index) (index # free)"
      by (auto simp: add_def st SetInt_Size_def SetInt_Remove_def Let_def
          split: Option.bind_splits)
    have d: "index \<notin> set free" "distinct free" "index \<notin> snd ` set (indexes st)"
      using inv Cons by (auto simp: partition_inv_def)
    then have f': "notUsedVisitorRecordsIndex st' = free"
      using f by (auto simp: filter_id_conv)
    show ?thesis using inv fresh Cons d
      unfolding partition_inv_def i r f' by auto
  qed
qed


lemma Delete_values:
  assumes "distinct (map fst m)" "distinct (map snd m)" "(k, index) \<in> set m"
  shows "snd ` set (Delete k m) = snd ` set m - {index}"
proof -
  have f: "inj_on fst (set m)" and s: "inj_on snd (set m)"
    using assms by (simp_all add: distinct_map)
  show ?thesis
  proof (intro set_eqI iffI)
    fix v assume "v \<in> snd ` set (Delete k m)"
    then obtain p where p: "p \<in> set m" "fst p \<noteq> k" "snd p = v"
      by (auto simp: Delete_def)
    have "v \<noteq> index"
    proof
      assume "v = index"
      then have "snd p = snd (k, index)" using p by simp
      then have "p = (k, index)" using inj_onD [OF s _ p(1) assms(3)] by simp
      then show False using p(2) by simp
    qed
    then show "v \<in> snd ` set m - {index}" using p by auto
  next
    fix v assume "v \<in> snd ` set m - {index}"
    then obtain p where p: "p \<in> set m" "snd p = v" "v \<noteq> index" by auto
    have "fst p \<noteq> k"
    proof
      assume "fst p = k"
      then have "fst p = fst (k, index)" by simp
      then have "p = (k, index)" using inj_onD [OF f _ p(1) assms(3)] by simp
      then show False using p by simp
    qed
    then show "v \<in> snd ` set (Delete k m)" using p by (auto simp: Delete_def)
  qed
qed

lemma Delete_distinct:
  "distinct (map fst m) \<Longrightarrow> distinct (map snd m) \<Longrightarrow>
   distinct (map fst (Delete k m)) \<and> distinct (map snd (Delete k m))"
  by (simp add: Delete_def distinct_map_filter)

lemma partition_inv_valid:
  assumes "partition_inv st" and "(k, index) \<in> set (indexes st)"
  shows "0 \<le> index \<and> index < int (length (visitorRecords st))"
proof -
  have "index \<in> snd ` set (indexes st)" using assms(2) by force
  then have "index \<in> snd ` set (indexes st) \<union> set (notUsedVisitorRecordsIndex st)"
    by simp
  also have "\<dots> = int ` {0 ..< length (visitorRecords st)}"
    using assms(1) by (simp add: partition_inv_def)
  finally show ?thesis by auto
qed

lemma partition_inv_visit:
  assumes inv: "partition_inv st" and mem: "(k, index) \<in> set (indexes st)" and
    v: "deleteExpiredOnce_visit now (k, index) st = Some st'"
  shows "partition_inv st' \<and> (indexes st' = indexes st \<or> indexes st' = Delete k (indexes st))"
proof -
  have rng: "index < int (length (visitorRecords st)) \<and> index \<ge> 0"
    using partition_inv_valid [OF inv mem] by simp
  from v rng consider
    (kept) "indexes st' = indexes st" "visitorRecords st' = visitorRecords st"
      "notUsedVisitorRecordsIndex st' = notUsedVisitorRecordsIndex st"
  | (freed) "indexes st' = Delete k (indexes st)" "visitorRecords st' = visitorRecords st"
      "notUsedVisitorRecordsIndex st' = SetInt_Add index (notUsedVisitorRecordsIndex st)"
    by (auto simp: deleteExpiredOnce_visit_def Let_def split: Option.bind_splits if_splits)
  then show ?thesis
  proof cases
    case kept
    with inv show ?thesis by (simp add: partition_inv_def)
  next
    case freed
    have dk: "distinct (map fst (indexes st))" and ds: "distinct (map snd (indexes st))"
      using inv by (simp_all add: partition_inv_def)
    have vals: "snd ` set (indexes st') = snd ` set (indexes st) - {index}"
      unfolding freed using Delete_values [OF dk ds mem] .
    have iv: "index \<in> snd ` set (indexes st)" using mem by force
    then have nf: "index \<notin> set (notUsedVisitorRecordsIndex st)"
      using inv by (auto simp: partition_inv_def)
    then have fr: "notUsedVisitorRecordsIndex st' = notUsedVisitorRecordsIndex st @ [index]"
      using freed by (simp add: SetInt_Add_def)
    have "distinct (map fst (indexes st')) \<and> distinct (map snd (indexes st'))"
      unfolding freed using Delete_distinct [OF dk ds] .
    moreover have "distinct (notUsedVisitorRecordsIndex st')"
      using inv nf fr by (simp add: partition_inv_def)
    moreover have "snd ` set (indexes st') \<inter> set (notUsedVisitorRecordsIndex st') = {}"
      using inv unfolding vals fr by (auto simp: partition_inv_def)
    moreover have "snd ` set (indexes st') \<union> set (notUsedVisitorRecordsIndex st')
                     = int ` {0 ..< length (visitorRecords st')}"
    proof -
      have "snd ` set (indexes st') \<union> set (notUsedVisitorRecordsIndex st')
              = (snd ` set (indexes st) - {index})
                  \<union> (set (notUsedVisitorRecordsIndex st) \<union> {index})"
        by (simp add: vals fr)
      also have "\<dots> = snd ` set (indexes st) \<union> set (notUsedVisitorRecordsIndex st)"
        using iv by auto
      also have "\<dots> = int ` {0 ..< length (visitorRecords st)}"
        using inv by (simp add: partition_inv_def)
      finally show ?thesis by (simp add: freed(2))
    qed
    ultimately show ?thesis using freed by (simp add: partition_inv_def)
  qed
qed

lemma partition_inv_Range:
  "partition_inv st \<Longrightarrow> set kvs \<subseteq> set (indexes st) \<Longrightarrow> distinct (map fst kvs) \<Longrightarrow>
   deleteExpiredOnce_Range clock kvs st = Some st' \<Longrightarrow> partition_inv st'"
proof (induction kvs arbitrary: st)
  case Nil
  then show ?case by simp
next
  case (Cons kv kvs)
  obtain k index where kv: "kv = (k, index)" by (cases kv)
  from Cons.prems(4) obtain st1 where
    v: "deleteExpiredOnce_visit (clock k) (k, index) st = Some st1" and
    r: "deleteExpiredOnce_Range clock kvs st1 = Some st'"
    by (auto simp: kv split: Option.bind_splits)
  have mem: "(k, index) \<in> set (indexes st)" using Cons.prems(2) kv by simp
  from partition_inv_visit [OF Cons.prems(1) mem v] have
    inv1: "partition_inv st1" and
    ix: "indexes st1 = indexes st \<or> indexes st1 = Delete k (indexes st)"
    by simp_all
  have "k \<notin> fst ` set kvs" using Cons.prems(3) kv by simp
  then have "set kvs \<subseteq> set (Delete k (indexes st))"
    using Cons.prems(2) by (auto simp: Delete_def)
  then have sub: "set kvs \<subseteq> set (indexes st1)"
    using ix Cons.prems(2) by auto
  have "distinct (map fst kvs)" using Cons.prems(3) by simp
  from Cons.IH [OF inv1 sub this r] show ?case .
qed

lemma partition_inv_deleteExpiredOnce:
  "partition_inv st \<Longrightarrow> deleteExpiredOnce clock st = Some st' \<Longrightarrow> partition_inv st'"
  unfolding deleteExpiredOnce_def
  by (rule partition_inv_Range [where kvs = "indexes st"]) (simp_all add: partition_inv_def)

lemma partition_inv_order:
  assumes "partition_inv st" "mset ixs = mset (indexes st)"
    "mset free = mset (notUsedVisitorRecordsIndex st)"
  shows "partition_inv (st\<lparr>indexes := ixs, notUsedVisitorRecordsIndex := free\<rparr>)"
proof -
  have "mset (map fst ixs) = mset (map fst (indexes st))"
       "mset (map snd ixs) = mset (map snd (indexes st))"
    using assms(2) by (metis mset_map)+
  then have "distinct (map fst ixs) = distinct (map fst (indexes st))"
       "distinct (map snd ixs) = distinct (map snd (indexes st))"
    by (metis mset_eq_imp_distinct_iff)+
  moreover have "distinct free = distinct (notUsedVisitorRecordsIndex st)"
    using assms(3) by (rule mset_eq_imp_distinct_iff)
  moreover have "set ixs = set (indexes st)" "set free = set (notUsedVisitorRecordsIndex st)"
    using assms(2,3) by (metis mset_eq_setD)+
  ultimately show ?thesis using assms(1) by (simp add: partition_inv_def)
qed

lemma partition_before_rebuild:
  "reachable_before_rebuild st \<Longrightarrow> partition_inv st"
proof (induction rule: reachable_before_rebuild.induct)
  case (rb_new dE cI mV mU st)
  then show ?case by (rule partition_inv_new)
next
  case (rb_visit st now key b st')
  then obtain e where "add now key st = Some (e, st')"
    by (auto simp: AllowVisit_def split: Option.bind_splits)
  with rb_visit.IH show ?case by (rule partition_inv_add)
next
  case (rb_sweep st clock st')
  then show ?case by (auto intro: partition_inv_deleteExpiredOnce)
next
  case (rb_gc st st')
  then show ?case by (simp add: gc_not_needed)
next
  case (rb_order st ixs free)
  then show ?case by (auto intro: partition_inv_order)
qed


lemma length_indexes_partition:
  assumes "partition_inv st"
  shows "int (length (indexes st)) =
           int (length (visitorRecords st)) - int (length (notUsedVisitorRecordsIndex st))"
proof -
  let ?V = "snd ` set (indexes st)" and ?F = "set (notUsedVisitorRecordsIndex st)"
  have "card ?V = length (indexes st)"
    using assms distinct_card [of "map snd (indexes st)"] by (simp add: partition_inv_def)
  moreover have "card ?F = length (notUsedVisitorRecordsIndex st)"
    using assms distinct_card [of "notUsedVisitorRecordsIndex st"]
    by (simp add: partition_inv_def)
  moreover have "card (?V \<union> ?F) = card ?V + card ?F"
    using assms by (intro card_Un_disjoint) (simp_all add: partition_inv_def)
  moreover have "card (?V \<union> ?F) = length (visitorRecords st)"
  proof -
    have "?V \<union> ?F = int ` {0 ..< length (visitorRecords st)}"
      using assms by (simp add: partition_inv_def)
    then show ?thesis by (simp add: card_image)
  qed
  ultimately show ?thesis by simp
qed

lemma gc_Range_returns:
  "\<forall>kv \<in> set kvs. 0 \<le> snd kv \<and> snd kv < int (length old) \<Longrightarrow> 0 \<le> i \<Longrightarrow>
   i + int (length kvs) \<le> int (length recs) \<Longrightarrow>
   \<exists>r. gc_Range old kvs (recs, i) = Some r"
proof (induction kvs arbitrary: recs i)
  case Nil
  then show ?case by simp
next
  case (Cons kv kvs)
  have "\<exists>r. gc_Range old kvs (recs[nat i := old ! nat (snd kv)], i + 1) = Some r"
    using Cons.prems by (intro Cons.IH) simp_all
  then show ?case using Cons.prems by (simp add: go_index_def go_assign_def)
qed

lemma gc_returns:
  assumes inv: "partition_inv st" and lim: "- 1 \<le> maxVisitsNum st"
  shows "\<exists>st'. gc st = Some st'"
proof (cases "needGc st")
  case False
  then show ?thesis by (simp add: gc_def)
next
  case True
  let ?used = "int (length (visitorRecords st)) - int (length (notUsedVisitorRecordsIndex st))"
  have used: "int (length (indexes st)) = ?used"
    using inv by (rule length_indexes_partition)
  then have fit: "0 \<le> gc_newLen st \<and> int (length (indexes st)) \<le> gc_newLen st"
    by (auto simp: gc_newLen_def Let_def)
  from fill_records_None [of "nat (gc_newLen st)" "maxVisitsNum st" "heap st"] lim
  obtain recs h where
    f: "fill_records (nat (gc_newLen st)) (maxVisitsNum st) (heap st) = Some (recs, h)"
    by (cases "fill_records (nat (gc_newLen st)) (maxVisitsNum st) (heap st)") auto
  have len: "length recs = nat (gc_newLen st)" using f by (rule fill_records_length)
  have "\<forall>kv \<in> set (indexes st). 0 \<le> snd kv \<and> snd kv < int (length (visitorRecords st))"
  proof
    fix kv assume "kv \<in> set (indexes st)"
    then have "(fst kv, snd kv) \<in> set (indexes st)" by simp
    then show "0 \<le> snd kv \<and> snd kv < int (length (visitorRecords st))"
      by (rule partition_inv_valid [OF inv])
  qed
  then have "\<exists>r. gc_Range (visitorRecords st) (indexes st) (recs, 0) = Some r"
    using fit len by (intro gc_Range_returns) simp_all
  then obtain recs' i where
    "gc_Range (visitorRecords st) (indexes st) (recs, 0) = Some (recs', i)"
    by auto
  then show ?thesis using True f fit by (simp add: gc_def Let_def)
qed

subsection \<open>Free slots: what construction, the sweep and the rebuild leave behind\<close>

lemma UsedSize_new: "0 \<le> n \<Longrightarrow> newCircleQueueInt64 n = Some q \<Longrightarrow> UsedSize q = Some 0"
  using new_defined [of n] UsedSize_used [of n q] by auto

lemma free_empty_new:
  assumes "0 \<le> mV" and "new dE cI mV mU = Inr (st :: 'k Visitercontrol)"
  shows "free_empty st"
proof -
  from assms(2) obtain ps h where
    f: "fill_records (nat mU) mV [] = Some (ps, h)" and
    st: "visitorRecords st = ps" "heap st = h"
      "notUsedVisitorRecordsIndex st = add_range (\<lambda>i. True) (length ps) []"
    by (auto simp: new_def split: if_splits option.splits)
  from fill_records_Some [OF f] obtain q0 where
    q0: "nat mU = 0 \<or> newCircleQueueInt64 mV = Some q0" and
    ps: "ps = [0 ..< nat mU]" and h: "h = replicate (nat mU) q0"
    by auto
  show ?thesis unfolding free_empty_def
  proof
    fix i assume "i \<in> set (notUsedVisitorRecordsIndex st)"
    then obtain j where j: "i = int j" "j < nat mU"
      using st ps by (auto simp: add_range_Nil)
    then have "newCircleQueueInt64 mV = Some q0" using q0 by auto
    then have "UsedSize q0 = Some 0" using assms(1) by (rule UsedSize_new [rotated])
    moreover have "go_index (visitorRecords st) i = Some j"
      using j st ps by (auto simp: go_index_def)
    moreover have "deref (heap st) j = Some q0"
      using j st h by (simp add: deref_def)
    ultimately show "\<exists>p q. go_index (visitorRecords st) i = Some p \<and>
                          deref (heap st) p = Some q \<and> UsedSize q = Some 0"
      by blast
  qed
qed

lemma DeleteExpired_empty: "UsedSize q = Some 0 \<Longrightarrow> DeleteExpired now q = Some q"
  by (simp add: DeleteExpired_def)

lemma free_empty_visit:
  assumes fe: "free_empty st" and v: "deleteExpiredOnce_visit now (k, index) st = Some st'"
  shows "free_empty st'"
proof (cases "index < int (length (visitorRecords st)) \<and> index \<ge> 0")
  case False
  with v have "visitorRecords st' = visitorRecords st" "heap st' = heap st"
    "notUsedVisitorRecordsIndex st' = notUsedVisitorRecordsIndex st"
    by (auto simp: deleteExpiredOnce_visit_def)
  with fe show ?thesis by (simp add: free_empty_def)
next
  case True
  with v obtain p q q' sz where
    p: "go_index (visitorRecords st) index = Some p" and
    q: "deref (heap st) p = Some q" and
    d: "DeleteExpired now q = Some q'" and
    sz: "Size q' = Some sz" and
    recs: "visitorRecords st' = visitorRecords st" and
    hp: "heap st' = (heap st)[p := q']" and
    fr: "notUsedVisitorRecordsIndex st' =
           (if sz = 0 then SetInt_Add index (notUsedVisitorRecordsIndex st)
            else notUsedVisitorRecordsIndex st)"
    by (auto simp: deleteExpiredOnce_visit_def Let_def split: Option.bind_splits if_splits)
  have pl: "p < length (heap st)" using q by (auto simp: deref_def split: if_splits)
  have old: "\<exists>p' q''. go_index (visitorRecords st') i = Some p' \<and>
                 deref (heap st') p' = Some q'' \<and> UsedSize q'' = Some 0"
    if "i \<in> set (notUsedVisitorRecordsIndex st)" for i
  proof -
    from fe that obtain pi qi where
      a: "go_index (visitorRecords st) i = Some pi" "deref (heap st) pi = Some qi"
         "UsedSize qi = Some 0"
      by (auto simp: free_empty_def)
    show ?thesis
    proof (cases "pi = p")
      case True
      then have "qi = q" using a(2) q by simp
      then have "q' = q" using d a(3) DeleteExpired_empty [of q now] by simp
      then show ?thesis using a True \<open>qi = q\<close> recs hp pl by (simp add: deref_def)
    next
      case False
      then show ?thesis using a recs hp by (auto simp: deref_def split: if_splits)
    qed
  qed
  have new: "\<exists>p' q''. go_index (visitorRecords st') index = Some p' \<and>
                 deref (heap st') p' = Some q'' \<and> UsedSize q'' = Some 0"
    if "sz = 0"
    using that p sz recs hp pl by (auto simp: deref_def Size_def)
  show ?thesis unfolding free_empty_def
  proof
    fix i assume "i \<in> set (notUsedVisitorRecordsIndex st')"
    then have "i \<in> set (notUsedVisitorRecordsIndex st) \<or> (sz = 0 \<and> i = index)"
      using fr by (auto simp: SetInt_Add_def split: if_splits)
    then show "\<exists>p q. go_index (visitorRecords st') i = Some p \<and>
                     deref (heap st') p = Some q \<and> UsedSize q = Some 0"
      using old new by blast
  qed
qed

lemma free_empty_Range:
  "free_empty st \<Longrightarrow> deleteExpiredOnce_Range clock kvs st = Some st' \<Longrightarrow> free_empty st'"
proof (induction kvs arbitrary: st)
  case Nil
  then show ?case by simp
next
  case (Cons kv kvs)
  obtain k index where kv: "kv = (k, index)" by (cases kv)
  from Cons.prems(2) obtain st1 where
    v: "deleteExpiredOnce_visit (clock k) (k, index) st = Some st1" and
    r: "deleteExpiredOnce_Range clock kvs st1 = Some st'"
    by (auto simp: kv split: Option.bind_splits)
  from Cons.IH [OF free_empty_visit [OF Cons.prems(1) v] r] show ?case .
qed

lemma free_empty_deleteExpiredOnce:
  "free_empty st \<Longrightarrow> deleteExpiredOnce clock st = Some st' \<Longrightarrow> free_empty st'"
  unfolding deleteExpiredOnce_def by (rule free_empty_Range)

lemma free_empty_gc_rebuild:
  assumes "0 \<le> maxVisitsNum st" and "needGc st" and "gc st = Some st'"
  shows "free_empty st'"
proof -
  from gc_rebuild [OF assms(2,3)] obtain q0 where
    fresh: "\<forall>j. length (indexes st) \<le> j \<and> j < length (visitorRecords st') \<longrightarrow>
        newCircleQueueInt64 (maxVisitsNum st) = Some q0 \<and>
        length (heap st) \<le> visitorRecords st' ! j \<and>
        deref (heap st') (visitorRecords st' ! j) = Some q0" and
    fr: "notUsedVisitorRecordsIndex st' =
        map int [length (indexes st) ..< length (visitorRecords st')]"
    by blast
  show ?thesis unfolding free_empty_def
  proof
    fix i assume "i \<in> set (notUsedVisitorRecordsIndex st')"
    then obtain j where j: "i = int j" "length (indexes st) \<le> j"
      "j < length (visitorRecords st')"
      using fr by auto
    with fresh have "newCircleQueueInt64 (maxVisitsNum st) = Some q0"
      "deref (heap st') (visitorRecords st' ! j) = Some q0"
      by auto
    moreover from this(1) have "UsedSize q0 = Some 0"
      using assms(1) by (rule UsedSize_new [rotated])
    moreover have "go_index (visitorRecords st') i = Some (visitorRecords st' ! j)"
      using j by (simp add: go_index_def)
    ultimately show "\<exists>p q. go_index (visitorRecords st') i = Some p \<and>
                          deref (heap st') p = Some q \<and> UsedSize q = Some 0"
      by blast
  qed
qed

subsection \<open>The error that \<open>add\<close> returns\<close>

lemma add_new_key_returns_nil:
  "Load (indexes st) key = None \<Longrightarrow> add now key st = Some (e, st') \<Longrightarrow> e = None"
  by (auto simp: add_def Let_def split: if_splits Option.bind_splits)

lemma add_known_key_returns_Push:
  "Load (indexes st) key = Some index \<Longrightarrow> add now key st = Some (e, st') \<Longrightarrow>
   \<exists>p q q'. go_index (visitorRecords st) index = Some p \<and> deref (heap st) p = Some q \<and>
            Push (now + defaultExpiration st) q = Some (e, q')"
  by (auto simp: add_def split: Option.bind_splits)

subsection \<open>The concrete states are the results of running the code\<close>

lemma new_pool1_start: "new 10 1 2 1 = Inr pool1_start"
  by code_simp

lemma run_pool1_swept: "run (pool1_visits @ [Sweep 11]) pool1_start = Some pool1_swept"
  by code_simp

lemma needGc_pool1_swept: "needGc pool1_swept"
  by code_simp

lemma gc_pool1_swept: "gc pool1_swept = Some pool1_compacted"
  by code_simp

lemma visit_pool1_compacted: "AllowVisit 12 2 pool1_compacted = Some (True, pool1_revisited)"
  by code_simp

lemma new_pool3_start: "new 10 1 2 3 = Inr pool3_start"
  by code_simp

lemma run_pool3_swept: "run (pool3_visits @ [Sweep 11]) pool3_start = Some pool3_swept"
  by code_simp

lemma needGc_pool3_swept: "needGc pool3_swept"
  by code_simp

lemma gc_pool3_swept: "gc pool3_swept = Some pool3_compacted"
  by code_simp

lemma visit_pool3_compacted_panics: "AllowVisit 12 6 pool3_compacted = None"
  by code_simp

lemma new_zero_limit_start: "new 30 1 0 1 = Inr zero_limit_start"
  by code_simp

lemma run_one_visit_state:
  "Option.bind (case new 10 1 1 1 of Inl e \<Rightarrow> None | Inr st \<Rightarrow> Some st) (run [Visit 0 7])
     = Some one_visit_state"
  by code_simp

section \<open>The claims\<close>

text \<open>
  C1 (gc, the rebuild). The claim: when compaction runs, the rebuild copies each active
  Window Buffer by reference to the front of the new slots, reassigns key \<open>\<mapsto>\<close> newIndex
  in \<open>keyToSlot\<close> for every key, and marks every trailing index as free. The \<open>Range\<close>
  in \<open>gc\<close> copies the pointers and counts \<open>indexNew\<close>, but never stores into
  \<open>indexes\<close>. At \<open>pool1_swept\<close> compaction is needed and runs; the buffer of key 2 (the
  queue at address 1) moves from slot 1 to slot 0, and \<open>indexes\<close> is left as it was: key 2
  still maps to slot 1, which now holds a fresh queue (address 5) and is in the free set.
  In general \<open>gc\<close> returns \<open>indexes\<close> as it found it (\<open>gc_never_stores_indexes\<close>),
  while the copy by reference in the order of \<open>Range\<close> and the freeing of the trailing
  indices are as claimed (\<open>gc_rebuild\<close>). Where the surviving keys sat in higher slots
  the old index lies outside the new pool, and the next visit of the key panics
  (\<open>visit_pool3_compacted_panics\<close>).
\<close>

theorem gc_leaves_indexes_stale:
  "needGc pool1_swept \<and> gc pool1_swept = Some pool1_compacted \<and>
   Load (indexes pool1_swept) 2 = Some 1 \<and>
   go_index (visitorRecords pool1_swept) 1 = Some 1 \<and>
   go_index (visitorRecords pool1_compacted) 0 = Some 1 \<and>
   indexes pool1_compacted = indexes pool1_swept \<and>
   Load (indexes pool1_compacted) 2 = Some 1 \<and>
   go_index (visitorRecords pool1_compacted) 1 = Some 5 \<and>
   notUsedVisitorRecordsIndex pool1_compacted = [1]"
proof -
  have "Load (indexes pool1_swept) 2 = Some 1 \<and>
   go_index (visitorRecords pool1_swept) 1 = Some 1"
    by code_simp
  moreover have "go_index (visitorRecords pool1_compacted) 0 = Some 1 \<and>
   indexes pool1_compacted = indexes pool1_swept \<and>
   Load (indexes pool1_compacted) 2 = Some 1 \<and>
   go_index (visitorRecords pool1_compacted) 1 = Some 5 \<and>
   notUsedVisitorRecordsIndex pool1_compacted = [1]"
    by code_simp
  ultimately show ?thesis using needGc_pool1_swept gc_pool1_swept by simp
qed

text \<open>
  C2 (partition of the slot indices). The claim: at every point reachable by visits, sweeps
  and compactions, the slot indices stored in \<open>keyToSlot\<close> and those in \<open>freeSlots\<close> are
  disjoint, valid, and together cover \<open>[0, len(slots))\<close>. The run below starts from
  \<open>new\<close> and ends with a compaction; in its last state the pool has two slots, slot 1
  is both the slot of key 2 and free, and slot 0 is neither owned nor free. Until the first
  rebuild the partition holds (\<open>partition_before_rebuild\<close>); the rebuild loses it because
  it leaves the old slot indices in \<open>indexes\<close>.
\<close>

theorem partition_lost_after_gc:
  "new 10 1 2 1 = Inr pool1_start \<and>
   run (pool1_visits @ [Sweep 11, Compact]) pool1_start = Some pool1_compacted \<and>
   length (visitorRecords pool1_compacted) = 2 \<and>
   1 \<in> snd ` set (indexes pool1_compacted) \<and>
   1 \<in> set (notUsedVisitorRecordsIndex pool1_compacted) \<and>
   0 \<notin> snd ` set (indexes pool1_compacted) \<and>
   0 \<notin> set (notUsedVisitorRecordsIndex pool1_compacted)"
proof -
  have "run (pool1_visits @ [Sweep 11, Compact]) pool1_start = Some pool1_compacted"
    by code_simp
  moreover have "length (visitorRecords pool1_compacted) = 2 \<and>
     1 \<in> snd ` set (indexes pool1_compacted) \<and>
     1 \<in> set (notUsedVisitorRecordsIndex pool1_compacted) \<and>
     0 \<notin> snd ` set (indexes pool1_compacted) \<and>
     0 \<notin> set (notUsedVisitorRecordsIndex pool1_compacted)"
    by (simp add: pool1_compacted_def)
  ultimately show ?thesis using new_pool1_start by simp
qed

text \<open>
  C3 (the result of AllowVisit). The claim: for every key, new or known, AllowVisit returns
  true if and only if the Push onto the key's buffer succeeded, and false whenever the Push
  fails. For a key already in \<open>indexes\<close>, \<open>add\<close> returns the error of \<open>Push\<close>; for a
  new key it drops that error and returns \<open>nil\<close>. With limit 0 the buffer of a new key is
  full from the start: for the new key 7 the only free slot, 0, is taken, the Push onto
  its queue fails with \<open>QueueFull\<close>, and AllowVisit returns true. In general, see
  \<open>add_known_key_returns_Push\<close> and \<open>add_new_key_returns_nil\<close>.
\<close>

theorem new_key_admitted_though_push_fails:
  "new 30 1 0 1 = Inr zero_limit_start \<and>
   Load (indexes zero_limit_start) 7 = None \<and>
   notUsedVisitorRecordsIndex zero_limit_start = [0] \<and>
   go_index (visitorRecords zero_limit_start) 0 = Some 0 \<and>
   deref (heap zero_limit_start) 0 = Some zero_limit_queue \<and>
   Push (5 + defaultExpiration zero_limit_start) zero_limit_queue
     = Some (Some QueueFull, zero_limit_queue) \<and>
   AllowVisit 5 7 zero_limit_start =
     Some (True, zero_limit_start\<lparr>notUsedVisitorRecordsIndex := [], indexes := [(7, 0)]\<rparr>)"
proof -
  have "Load (indexes zero_limit_start) 7 = None \<and>
   notUsedVisitorRecordsIndex zero_limit_start = [0] \<and>
   go_index (visitorRecords zero_limit_start) 0 = Some 0 \<and>
   deref (heap zero_limit_start) 0 = Some zero_limit_queue"
    by code_simp
  moreover have "Push (5 + defaultExpiration zero_limit_start) zero_limit_queue
     = Some (Some QueueFull, zero_limit_queue)"
    by code_simp
  moreover have "AllowVisit 5 7 zero_limit_start =
     Some (True, zero_limit_start\<lparr>notUsedVisitorRecordsIndex := [], indexes := [(7, 0)]\<rparr>)"
    by code_simp
  ultimately show ?thesis using new_zero_limit_start by simp
qed

text \<open>
  C4 (DeleteExpired), as stated: the oldest event is removed while its expiration is
  \<open>\<le> now\<close>, so an event that expires exactly at \<open>now\<close> is removed. The loop tests
  \<open>now > slice[temphead]\<close>: in a queue of capacity 1 that holds one event expiring at 5,
  a sweep at \<open>now = 5\<close> removes nothing.
\<close>

theorem DeleteExpired_keeps_event_expiring_now:
  "newCircleQueueInt64 1 = Some \<lparr>maxSize = 2, slice = [0, 0], head = 0, tail = 0\<rparr> \<and>
   Push 5 \<lparr>maxSize = 2, slice = [0, 0], head = 0, tail = 0\<rparr>
     = Some (None, \<lparr>maxSize = 2, slice = [5, 0], head = 0, tail = 1\<rparr>) \<and>
   DeleteExpired 5 \<lparr>maxSize = 2, slice = [5, 0], head = 0, tail = 1\<rparr>
     = Some \<lparr>maxSize = 2, slice = [5, 0], head = 0, tail = 1\<rparr> \<and>
   UsedSize \<lparr>maxSize = 2, slice = [5, 0], head = 0, tail = 1\<rparr> = Some 1 \<and>
   entries \<lparr>maxSize = 2, slice = [5, 0], head = 0, tail = 1\<rparr> = [5]"
  by code_simp

text \<open>
  C4, amended: on a queue reached from \<open>newCircleQueueInt64 n\<close> with \<open>0 \<le> n\<close>,
  \<open>DeleteExpired now\<close> returns, and removes the oldest event again and again while its
  expiration is \<open>< now\<close>; it stops at the first event whose expiration is \<open>\<ge> now\<close> (an
  event expiring exactly at \<open>now\<close> stays) and leaves that event and all later ones as
  they were: the stored events become \<open>dropWhile (\<lambda>e. e < now)\<close> of the old ones, and
  neither the slice nor \<open>tail\<close> changes.
\<close>

theorem DeleteExpired_drops_strictly_expired:
  assumes "0 \<le> n" and "reachableQ n q"
  shows "\<exists>q'. DeleteExpired now q = Some q' \<and>
              entries q' = dropWhile (\<lambda>e. e < now) (entries q) \<and>
              UsedSize q' = Some (int (length (entries q'))) \<and>
              slice q' = slice q \<and> tail q' = tail q"
proof -
  have ok: "queue_ok n q" using assms by (rule reachableQ_ok)
  from DeleteExpired_entries [OF ok, of now] obtain q' where
    d: "DeleteExpired now q = Some q'" and ok': "queue_ok n q'" and
    s: "slice q' = slice q" "tail q' = tail q" and
    e: "entries q' = dropWhile (\<lambda>e. e < now) (entries q)"
    by blast
  have "UsedSize q' = Some (int (length (entries q')))"
    using UsedSize_used [OF ok'] length_entries [OF ok'] by simp
  with d s e show ?thesis by blast
qed

text \<open>
  C4, witness: the queue of capacity 3 holding the events 10 and 20, swept at
  \<open>now = 20\<close>: the event 10 goes, the event 20 stays.
\<close>

theorem DeleteExpired_drops_strictly_expired_witness:
  "0 \<le> (3::int) \<and> reachableQ 3 queue_two_of_three \<and>
   entries queue_two_of_three = [10, 20] \<and>
   (\<exists>q'. DeleteExpired 20 queue_two_of_three = Some q' \<and> entries q' = [20] \<and>
         UsedSize q' = Some 1 \<and> slice q' = slice queue_two_of_three \<and>
         tail q' = tail queue_two_of_three)"
proof -
  have n: "0 \<le> (3::int)" by simp
  have e: "entries queue_two_of_three = [10, 20]" by code_simp
  from DeleteExpired_drops_strictly_expired [OF n reachableQ_two_of_three, of 20]
  show ?thesis using n reachableQ_two_of_three e by auto
qed

text \<open>
  C5 (capacity). The claim: a buffer of capacity N accepts exactly N Pushes, Push fails
  with Full if and only if the buffer holds N events, so for any key the (limit+1)-th call
  within one window is denied. The buffer does what the claim says (\<open>Push_fails_iff_full\<close>,
  \<open>Push_appends_until_full\<close>), the controller does not: with limit 0 the first call of
  every new key is the (limit+1)-th, and it is admitted, whether the key takes a free slot
  (key 7) or a slot appended to the pool (key 8, after key 7 took the only free slot),
  because \<open>add\<close> ignores the result of \<open>Push\<close> for a new key. The second call of
  key 7 is denied.
\<close>

theorem first_visit_admitted_at_limit_zero:
  "new 30 1 0 1 = Inr zero_limit_start \<and> maxVisitsNum zero_limit_start = 0 \<and>
   map_option fst (AllowVisit 5 7 zero_limit_start) = Some True \<and>
   map_option fst (Option.bind (run [Visit 5 7] zero_limit_start) (AllowVisit 5 8))
     = Some True \<and>
   map_option fst (Option.bind (run [Visit 5 7] zero_limit_start) (AllowVisit 6 7))
     = Some False"
proof -
  have "maxVisitsNum zero_limit_start = 0 \<and>
   map_option fst (AllowVisit 5 7 zero_limit_start) = Some True \<and>
   map_option fst (Option.bind (run [Visit 5 7] zero_limit_start) (AllowVisit 5 8))
     = Some True \<and>
   map_option fst (Option.bind (run [Visit 5 7] zero_limit_start) (AllowVisit 6 7))
     = Some False"
    by code_simp
  then show ?thesis using new_zero_limit_start by simp
qed

text \<open>
  C6 (size of the rebuilt pool), as stated: the new slots sequence has length
  \<open>max(targetMinimum, 2 \<times> activeCount)\<close>. At \<open>pool3_swept\<close> the hint is 3 and two of
  the seven slots are owned by keys, so the maximum is 4; \<open>gc\<close> rebuilds the pool with
  3 slots.
\<close>

theorem gc_length_is_not_the_maximum:
  "needGc pool3_swept \<and> gc pool3_swept = Some pool3_compacted \<and>
   maximumNumberOfOnlineUsers pool3_swept = 3 \<and>
   length (indexes pool3_swept) = 2 \<and>
   int (length (visitorRecords pool3_swept))
     - int (length (notUsedVisitorRecordsIndex pool3_swept)) = 2 \<and>
   max (maximumNumberOfOnlineUsers pool3_swept) (2 * 2) = 4 \<and>
   length (visitorRecords pool3_compacted) = 3"
proof -
  have "maximumNumberOfOnlineUsers pool3_swept = 3 \<and>
   length (indexes pool3_swept) = 2 \<and>
   int (length (visitorRecords pool3_swept))
     - int (length (notUsedVisitorRecordsIndex pool3_swept)) = 2 \<and>
   max (maximumNumberOfOnlineUsers pool3_swept) (2 * 2) = 4 \<and>
   length (visitorRecords pool3_compacted) = 3"
    by (simp add: pool3_swept_def pool3_compacted_def)
  then show ?thesis using needGc_pool3_swept gc_pool3_swept by simp
qed

text \<open>
  C6, amended: when \<open>gc\<close> rebuilds the pool, the new slots sequence has length
  \<open>targetMinimum\<close> if \<open>activeCount < targetMinimum\<close>, and \<open>2 \<times> activeCount\<close>
  otherwise, where \<open>activeCount\<close> is the number of slots less the number of free indices.
  (While the partition of the slot indices holds, \<open>gc\<close> does return: \<open>gc_returns\<close>.)
\<close>

theorem gc_new_length:
  assumes "needGc st" and "gc st = Some st'"
  shows "int (length (visitorRecords st')) =
           (let usedLen = int (length (visitorRecords st)) -
                          int (length (notUsedVisitorRecordsIndex st))
            in if usedLen < maximumNumberOfOnlineUsers st
               then maximumNumberOfOnlineUsers st else 2 * usedLen)"
proof -
  from assms obtain recs h recs' i where
    nn: "0 \<le> gc_newLen st" and
    f: "fill_records (nat (gc_newLen st)) (maxVisitsNum st) (heap st) = Some (recs, h)" and
    r: "gc_Range (visitorRecords st) (indexes st) (recs, 0) = Some (recs', i)" and
    s: "visitorRecords st' = recs'"
    by (auto simp: gc_def Let_def split: if_splits Option.bind_splits)
  have "length recs' = nat (gc_newLen st)"
    using fill_records_length [OF f] gc_Range_length [OF r] by simp
  then show ?thesis using nn s by (simp add: gc_newLen_def Let_def)
qed

text \<open>
  C6, witness: the rebuild of \<open>pool3_swept\<close>, where \<open>activeCount = 2 < 3\<close>.
\<close>

theorem gc_new_length_witness:
  "needGc pool3_swept \<and> gc pool3_swept = Some pool3_compacted \<and>
   int (length (visitorRecords pool3_compacted)) = 3"
proof -
  from gc_new_length [OF needGc_pool3_swept gc_pool3_swept]
  have "int (length (visitorRecords pool3_compacted)) = 3"
    by (simp add: pool3_swept_def)
  then show ?thesis using needGc_pool3_swept gc_pool3_swept by simp
qed

text \<open>
  C7 (a denied call changes nothing). If AllowVisit returns false, the controller is in
  the state it was in before the call: the buffer of the key, its \<open>UsedSize\<close> and its
  contents included.
\<close>

theorem denied_visit_no_effect:
  assumes "AllowVisit now key st = Some (False, st')"
  shows "st' = st"
proof -
  from assms obtain e where a: "add now key st = Some (Some e, st')"
    by (auto simp: AllowVisit_def split: Option.bind_splits)
  show ?thesis
  proof (cases "Load (indexes st) key")
    case None
    with a show ?thesis
      by (auto simp: add_def Let_def split: if_splits Option.bind_splits)
  next
    case (Some index)
    with a obtain p q q' where "deref (heap st) p = Some q"
      "Push (now + defaultExpiration st) q = Some (Some e, q')" "st' = st\<lparr>heap := (heap st)[p := q']\<rparr>"
      by (auto simp: add_def split: Option.bind_splits)
    then show ?thesis
      using Push_error_unchanged [of "now + defaultExpiration st" q e q'] deref_update_same [of "heap st" p q]
      by simp
  qed
qed

text \<open>
  C7, witness: with limit 1, key 7 has visited at time 0; its visit at time 1 is denied
  and returns the state unchanged.
\<close>

theorem denied_visit_no_effect_witness:
  "AllowVisit 1 7 one_visit_state = Some (False, snd (the (AllowVisit 1 7 one_visit_state))) \<and>
   snd (the (AllowVisit 1 7 one_visit_state)) = one_visit_state"
proof -
  have h: "AllowVisit 1 7 one_visit_state
             = Some (False, snd (the (AllowVisit 1 7 one_visit_state)))"
    by code_simp
  from denied_visit_no_effect [OF h] h show ?thesis by simp
qed




text \<open>
  C9 (free slots are empty). The claim: every slot index in the free set refers to an empty
  buffer. Construction, the sweep and the rebuild each leave only empty buffers behind free
  indices (\<open>free_empty_new\<close>, \<open>free_empty_deleteExpiredOnce\<close>,
  \<open>free_empty_gc_rebuild\<close>); but after the rebuild of C1 key 2 still maps to slot 1,
  which is free, so its next visit pushes into the buffer of a free slot: in the last state
  of the run below slot 1 is free and its queue holds one event.
\<close>

theorem free_slot_holds_an_event:
  "new 10 1 2 1 = Inr pool1_start \<and>
   run (pool1_visits @ [Sweep 11, Compact, Visit 12 2]) pool1_start
     = Some pool1_revisited \<and>
   1 \<in> set (notUsedVisitorRecordsIndex pool1_revisited) \<and>
   go_index (visitorRecords pool1_revisited) 1 = Some 5 \<and>
   deref (heap pool1_revisited) 5
     = Some \<lparr>maxSize = 3, slice = [22, 0, 0], head = 0, tail = 1\<rparr> \<and>
   UsedSize \<lparr>maxSize = 3, slice = [22, 0, 0], head = 0, tail = 1\<rparr> = Some 1"
proof -
  have "run (pool1_visits @ [Sweep 11, Compact, Visit 12 2]) pool1_start
     = Some pool1_revisited"
    by code_simp
  moreover have "1 \<in> set (notUsedVisitorRecordsIndex pool1_revisited)"
    by (simp add: pool1_revisited_def)
  moreover have "go_index (visitorRecords pool1_revisited) 1 = Some 5 \<and>
   deref (heap pool1_revisited) 5
     = Some \<lparr>maxSize = 3, slice = [22, 0, 0], head = 0, tail = 1\<rparr> \<and>
   UsedSize \<lparr>maxSize = 3, slice = [22, 0, 0], head = 0, tail = 1\<rparr> = Some 1"
    by code_simp
  ultimately show ?thesis using new_pool1_start by simp
qed



end
